theory Spec2Isabelle
  imports Main
begin

section \<open>The tile class of \<^verbatim>\<open>src/backend/tile.py\<close>\<close>

text \<open>
  Python objects live on a heap and are compared by reference: the class \<^verbatim>\<open>Tile\<close>
  derives from \<^verbatim>\<open>object\<close> and defines neither \<^verbatim>\<open>__eq__\<close> nor \<^verbatim>\<open>__hash__\<close>.
  A tile reference is therefore an address, the heap maps every address to the fields of
  the object stored there, and a method that mutates tiles takes the heap and returns the
  new one.

  The field \<^verbatim>\<open>neighbours\<close> is a Python set of tiles. It is modelled by the list of its
  elements in the order in which the set iterates, which is fixed as long as the set is not
  changed; the elements of a set are distinct, so boards are wired with distinct lists.
  The sets a method returns are modelled as HOL sets of references.

  The fields \<^verbatim>\<open>x\<close>, \<^verbatim>\<open>y\<close> and \<^verbatim>\<open>value\<close> are called \<open>x_coord\<close>, \<open>y_coord\<close> and
  \<open>val\<close>, and the method \<^verbatim>\<open>open\<close> is called \<open>open_tile\<close>.
\<close>

type_synonym ref = nat

record tile =
  x_coord :: int
  y_coord :: int
  val :: int
  flagged :: bool
  covered :: bool
  down :: bool
  status :: int
  neighbours :: "ref list"
  neighbour_flags :: int

type_synonym heap = "ref \<Rightarrow> tile"

definition MINE :: int where "MINE = - 1"
definition BLAST :: int where "BLAST = - 2"
definition WRONGFLAG :: int where "WRONGFLAG = - 3"
definition UNFLAGGED :: int where "UNFLAGGED = - 4"
definition COVERED :: int where "COVERED = 9"
definition DOWN :: int where "DOWN = 10"
definition FLAGGED :: int where "FLAGGED = 11"

text \<open>\<^verbatim>\<open>Tile.__init__\<close>: the fields of a new tile.\<close>

definition init_tile :: "int \<Rightarrow> int \<Rightarrow> tile" where
  "init_tile a b =
     \<lparr>x_coord = a, y_coord = b, val = 0, flagged = False, covered = True, down = False,
      status = COVERED, neighbours = [], neighbour_flags = 0\<rparr>"

definition get_coordinate :: "heap \<Rightarrow> ref \<Rightarrow> int \<times> int" where
  "get_coordinate h r = (x_coord (h r), y_coord (h r))"

definition get_status :: "heap \<Rightarrow> ref \<Rightarrow> int" where
  "get_status h r = status (h r)"

definition is_mine :: "heap \<Rightarrow> ref \<Rightarrow> bool" where
  "is_mine h r = (val (h r) = MINE)"

definition get_neighbours :: "heap \<Rightarrow> ref \<Rightarrow> ref list" where
  "get_neighbours h r = neighbours (h r)"

text \<open>\<^verbatim>\<open>set_neighbours\<close> builds a set from an iterable, which drops repetitions.\<close>

definition set_neighbours :: "heap \<Rightarrow> ref \<Rightarrow> ref list \<Rightarrow> heap" where
  "set_neighbours h r ns = h(r := (h r)\<lparr>neighbours := remdups ns\<rparr>)"

definition set_mine :: "heap \<Rightarrow> ref \<Rightarrow> heap" where
  "set_mine h r =
     (let h1 = h(r := (h r)\<lparr>val := MINE\<rparr>)
      in fold (\<lambda>t g. if \<not> is_mine g t then g(t := (g t)\<lparr>val := val (g t) + 1\<rparr>) else g)
           (neighbours (h1 r)) h1)"

definition recover :: "heap \<Rightarrow> ref \<Rightarrow> heap" where
  "recover h r =
     h(r := (h r)\<lparr>flagged := False, covered := True, down := False, status := COVERED,
                  neighbour_flags := 0\<rparr>)"

definition update :: "heap \<Rightarrow> ref \<Rightarrow> heap" where
  "update h r =
     (if flagged (h r) then h(r := (h r)\<lparr>status := FLAGGED\<rparr>)
      else if down (h r) then h(r := (h r)\<lparr>status := DOWN\<rparr>)
      else if covered (h r) then h(r := (h r)\<lparr>status := COVERED\<rparr>)
      else h(r := (h r)\<lparr>status := val (h r)\<rparr>))"

definition left_hold :: "heap \<Rightarrow> ref \<Rightarrow> heap" where
  "left_hold h r =
     (if covered (h r) \<and> \<not> flagged (h r) then h(r := (h r)\<lparr>down := True\<rparr>) else h)"

definition double_hold :: "heap \<Rightarrow> ref \<Rightarrow> heap" where
  "double_hold h r =
     (let h1 = left_hold h r in fold (\<lambda>t g. left_hold g t) (neighbours (h1 r)) h1)"

definition unhold :: "heap \<Rightarrow> ref \<Rightarrow> heap" where
  "unhold h r = (if \<not> flagged (h r) then h(r := (h r)\<lparr>down := False\<rparr>) else h)"

text \<open>
  \<^verbatim>\<open>basic_open\<close> returns the new heap, the flag \<^verbatim>\<open>eff\<close> and the tiles to search next.
\<close>

definition basic_open :: "heap \<Rightarrow> bool \<Rightarrow> ref \<Rightarrow> heap \<times> bool \<times> ref list" where
  "basic_open h BFS r =
     (if flagged (h r) \<or> \<not> covered (h r) then (h, False, [])
      else
        let h1 = h(r := (h r)\<lparr>covered := False\<rparr>)
        in if val (h1 r) = 0 \<or> (BFS \<and> val (h1 r) = neighbour_flags (h1 r))
           then (h1, True, neighbours (h1 r))
           else (h1, True, []))"

text \<open>
  The \<^verbatim>\<open>while\<close> loop of \<^verbatim>\<open>open\<close>. The queue \<^verbatim>\<open>search\<close> is a list, read at its head and
  extended at its end. The loop never adds to \<^verbatim>\<open>searched\<close>: the statement that did is
  commented out in the source. A loop that does not end has the value \<open>None\<close>.
\<close>

partial_function (option) open_loop ::
  "heap \<Rightarrow> bool \<Rightarrow> ref list \<Rightarrow> ref set \<Rightarrow> ref set \<Rightarrow> (heap \<times> ref set \<times> ref set) option" where
  "open_loop h BFS search searched changed =
     (case search of
        [] \<Rightarrow> Some (h, searched, changed)
      | t # rest \<Rightarrow>
          (case basic_open h BFS t of
             (h1, eff, to_search) \<Rightarrow>
               open_loop h1 BFS (rest @ to_search) searched
                 (if eff then insert t changed else changed)))"

declare open_loop.simps [code]

definition open_tile :: "heap \<Rightarrow> bool \<Rightarrow> bool \<Rightarrow> ref \<Rightarrow> (heap \<times> ref set) option" where
  "open_tile h BFS test_op r =
     (case open_loop h BFS [r] {} {} of
        None \<Rightarrow> None
      | Some (h1, searched, changed) \<Rightarrow>
          Some (h1, if \<not> test_op then changed else searched))"

text \<open>
  The generator of \<^verbatim>\<open>double\<close> opens the neighbours one after the other, each on the heap
  the previous one left, and yields their results in that order.
\<close>

fun open_each :: "heap \<Rightarrow> bool \<Rightarrow> ref list \<Rightarrow> (heap \<times> ref set list) option" where
  "open_each h BFS [] = Some (h, [])"
| "open_each h BFS (t # ts) =
     (case open_tile h BFS False t of
        None \<Rightarrow> None
      | Some (h1, s) \<Rightarrow>
          (case open_each h1 BFS ts of
             None \<Rightarrow> None
           | Some (h2, ss) \<Rightarrow> Some (h2, s # ss)))"

datatype py_error = TypeError

text \<open>
  \<^verbatim>\<open>set.union(*args)\<close> is the unbound method: its first argument is the receiver, and a
  call with no argument at all raises \<^verbatim>\<open>TypeError\<close>.
\<close>

definition set_union :: "ref set list \<Rightarrow> py_error + ref set" where
  "set_union args = (case args of [] \<Rightarrow> Inl TypeError | s # ss \<Rightarrow> Inr (s \<union> \<Union> (set ss)))"

text \<open>
  A call that raises leaves the heap as it is at that moment, so \<^verbatim>\<open>double\<close> returns the
  heap together with either the exception or the returned set.
\<close>

definition double :: "heap \<Rightarrow> bool \<Rightarrow> ref \<Rightarrow> (heap \<times> (py_error + ref set)) option" where
  "double h BFS r =
     (if \<not> covered (h r) \<and> val (h r) = neighbour_flags (h r) then
        (case open_each h BFS (neighbours (h r)) of
           None \<Rightarrow> None
         | Some (h1, ss) \<Rightarrow> Some (h1, set_union ss))
      else Some (h, Inr {}))"

definition add_neighbour_flags :: "int \<Rightarrow> ref \<Rightarrow> heap \<Rightarrow> heap" where
  "add_neighbour_flags d t g = g(t := (g t)\<lparr>neighbour_flags := neighbour_flags (g t) + d\<rparr>)"

definition flag :: "heap \<Rightarrow> bool \<Rightarrow> ref \<Rightarrow> heap \<times> ref set" where
  "flag h easy_flag r =
     (if flagged (h r) then
        (let h1 = h(r := (h r)\<lparr>flagged := False\<rparr>)
         in (fold (add_neighbour_flags (- 1)) (neighbours (h1 r)) h1, {r}))
      else if covered (h r) then
        (let h1 = h(r := (h r)\<lparr>flagged := True\<rparr>)
         in (fold (add_neighbour_flags 1) (neighbours (h1 r)) h1, {r}))
      else if easy_flag then
        (let covered_neighbours = filter (\<lambda>t. covered (h t)) (neighbours (h r));
             unflagged_neighbours =
               filter (\<lambda>t. covered (h t) \<and> \<not> flagged (h t)) (neighbours (h r))
         in if val (h r) = int (length covered_neighbours) then
              (fold (\<lambda>t g.
                   let g1 = g(t := (g t)\<lparr>flagged := True\<rparr>)
                   in fold (add_neighbour_flags 1) (get_neighbours g1 t) g1)
                 covered_neighbours h,
               set unflagged_neighbours)
            else (h, {}))
      else (h, {}))"

subsection \<open>Player actions and their sequences\<close>

datatype action =
    Open ref bool bool
  | Flag ref bool
  | Double ref bool
  | LeftHold ref
  | DoubleHold ref
  | Unhold ref

text \<open>
  One call of a core operation on a tile: \<open>None\<close> when the call does not return, otherwise
  the heap it leaves and either the exception it raises or the set it returns (the hold
  operations return nothing, which is the empty set here).
\<close>

fun exec :: "heap \<Rightarrow> action \<Rightarrow> (heap \<times> (py_error + ref set)) option" where
  "exec h (Open r BFS test_op) =
     (case open_tile h BFS test_op r of None \<Rightarrow> None | Some (h1, s) \<Rightarrow> Some (h1, Inr s))"
| "exec h (Flag r easy_flag) = (case flag h easy_flag r of (h1, s) \<Rightarrow> Some (h1, Inr s))"
| "exec h (Double r BFS) = double h BFS r"
| "exec h (LeftHold r) = Some (left_hold h r, Inr {})"
| "exec h (DoubleHold r) = Some (double_hold h r, Inr {})"
| "exec h (Unhold r) = Some (unhold h r, Inr {})"

text \<open>
  A sequence of calls stops at the first call that raises, with the heap of that moment and
  the exception, or at the first call that does not return.
\<close>

fun run :: "heap \<Rightarrow> action list \<Rightarrow> (heap \<times> py_error option) option" where
  "run h [] = Some (h, None)"
| "run h (a # as) =
     (case exec h a of
        None \<Rightarrow> None
      | Some (h1, Inl e) \<Rightarrow> Some (h1, Some e)
      | Some (h1, Inr s) \<Rightarrow> run h1 as)"

subsection \<open>Equality and hashing of tiles\<close>

text \<open>
  The class defines no comparison and no hash of its own, so it has those of \<^verbatim>\<open>object\<close>:
  two tiles are equal when they are the same object, and the hash of a tile is derived
  from its address.
\<close>

definition tile_eq :: "ref \<Rightarrow> ref \<Rightarrow> bool" where
  "tile_eq a b = (a = b)"

definition tile_hash :: "ref \<Rightarrow> nat" where
  "tile_hash a = a"

subsection \<open>Notions of the specification\<close>

text \<open>
  The display code the specification derives from the state of a tile: FLAGGED if flagged,
  else DOWN if down, else COVERED if covered, else the value.
\<close>

definition spec_status :: "tile \<Rightarrow> int" where
  "spec_status t =
     (if flagged t then FLAGGED else if down t then DOWN else if covered t then COVERED
      else val t)"

text \<open>The number of flagged tiles among the neighbours of a tile.\<close>

definition flagged_neighbours :: "heap \<Rightarrow> ref \<Rightarrow> int" where
  "flagged_neighbours h r = int (length (filter (\<lambda>n. flagged (h n)) (neighbours (h r))))"

text \<open>
  A tile can be opened when it is covered and not flagged; an opened tile passes the search
  on to its neighbours when its value is 0, or in BFS mode when its value equals its
  counter of flags. The tiles that a search started from the queue \<open>q\<close> opens are those that
  can be opened and are reached from \<open>q\<close> along tiles that are opened and pass the search on.
\<close>

definition openable :: "heap \<Rightarrow> ref \<Rightarrow> bool" where
  "openable h r = (covered (h r) \<and> \<not> flagged (h r))"

definition spreads :: "bool \<Rightarrow> heap \<Rightarrow> ref \<Rightarrow> bool" where
  "spreads BFS h r = (val (h r) = 0 \<or> (BFS \<and> val (h r) = neighbour_flags (h r)))"

definition edges :: "bool \<Rightarrow> heap \<Rightarrow> (ref \<times> ref) set" where
  "edges BFS h = {(a, b). openable h a \<and> spreads BFS h a \<and> b \<in> set (neighbours (h a))}"

definition reach :: "bool \<Rightarrow> heap \<Rightarrow> ref list \<Rightarrow> ref set" where
  "reach BFS h q = {b. openable h b \<and> (\<exists>a \<in> set q. (a, b) \<in> (edges BFS h)\<^sup>*)}"

text \<open>The heap in which the tiles of \<open>S\<close> are open and nothing else has changed.\<close>

definition uncover :: "ref set \<Rightarrow> heap \<Rightarrow> heap" where
  "uncover S h = (\<lambda>r. if r \<in> S then (h r)\<lparr>covered := False\<rparr> else h r)"

text \<open>
  A board is a set of tiles that contains the neighbours of its tiles. Two tiles of value 0
  are adjacent in the zero-region when one is a neighbour of the other.
\<close>

definition closed_board :: "heap \<Rightarrow> ref set \<Rightarrow> bool" where
  "closed_board h B = (\<forall>r \<in> B. set (neighbours (h r)) \<subseteq> B)"




text \<open>
  The work left to the loop: the length of the queue, and for every tile of the board that
  can still be opened one step and the neighbours it may add to the queue.
\<close>

definition work :: "heap \<Rightarrow> ref set \<Rightarrow> ref list \<Rightarrow> nat" where
  "work h B q = length q + (\<Sum>r \<in> {r \<in> B. openable h r}. Suc (length (neighbours (h r))))"

subsection \<open>Boards\<close>

text \<open>New tiles, not wired: the tile at address \<open>r\<close> is \<^verbatim>\<open>Tile(0, r)\<close>.\<close>

definition fresh :: heap where
  "fresh = (\<lambda>r. init_tile 0 (int r))"

text \<open>Two new tiles with the same coordinates: every address holds \<^verbatim>\<open>Tile(0, 0)\<close>.\<close>

definition twins :: heap where
  "twins = (\<lambda>r. init_tile 0 0)"

text \<open>A row of two tiles with a mine on the second.\<close>

definition line2 :: heap where
  "line2 = set_mine (set_neighbours (set_neighbours fresh 0 [1]) 1 [0]) 1"

text \<open>A row of three tiles with a mine on the third.\<close>

definition line3 :: heap where
  "line3 =
     set_mine (set_neighbours (set_neighbours (set_neighbours fresh 0 [1]) 1 [0, 2]) 2 [1]) 2"



section \<open>Properties\<close>

subsection \<open>One step of the search\<close>

lemma basic_open_closed: "\<not> openable h t \<Longrightarrow> basic_open h BFS t = (h, False, [])"
  by (auto simp: basic_open_def openable_def)

lemma basic_open_openable:
  "openable h t \<Longrightarrow>
   basic_open h BFS t = (uncover {t} h, True, if spreads BFS h t then neighbours (h t) else [])"
  by (auto simp: basic_open_def openable_def spreads_def uncover_def fun_eq_iff Let_def)

lemma uncover_uncover: "uncover S (uncover T h) = uncover (S \<union> T) h"
  by (auto simp: uncover_def fun_eq_iff)

lemma uncover_empty: "uncover {} h = h"
  by (simp add: uncover_def)

lemma openable_uncover: "openable (uncover S h) r \<longleftrightarrow> openable h r \<and> r \<notin> S"
  by (simp add: openable_def uncover_def)

lemma spreads_uncover: "spreads BFS (uncover S h) r = spreads BFS h r"
  by (simp add: spreads_def uncover_def)

lemma neighbours_uncover: "neighbours (uncover S h r) = neighbours (h r)"
  by (simp add: uncover_def)

lemma open_loop_Nil: "open_loop h BFS [] sd ch = Some (h, sd, ch)"
  by (simp add: open_loop.simps)

lemma open_loop_Cons_closed:
  "\<not> openable h t \<Longrightarrow> open_loop h BFS (t # rest) sd ch = open_loop h BFS rest sd ch"
  by (subst open_loop.simps) (simp add: basic_open_closed)

lemma open_loop_Cons_open:
  "openable h t \<Longrightarrow>
   open_loop h BFS (t # rest) sd ch =
   open_loop (uncover {t} h) BFS
     (rest @ (if spreads BFS h t then neighbours (h t) else [])) sd (insert t ch)"
  by (subst open_loop.simps) (simp add: basic_open_openable)

subsection \<open>The tiles a search reaches\<close>

lemma edges_uncover: "edges BFS (uncover S h) = {(a, b). (a, b) \<in> edges BFS h \<and> a \<notin> S}"
  by (auto simp: edges_def openable_uncover spreads_uncover neighbours_uncover)

lemma edges_uncover_mono: "(edges BFS (uncover S h))\<^sup>* \<subseteq> (edges BFS h)\<^sup>*"
  by (rule rtrancl_mono) (auto simp: edges_uncover)

text \<open>
  A path that does not end in \<open>t\<close> either avoids \<open>t\<close>, or leaves \<open>t\<close> for the last time
  through one of its edges and avoids it from there on.
\<close>

lemma path_split:
  assumes "(a, b) \<in> (edges BFS h)\<^sup>*" and "b \<noteq> t"
  shows "(a \<noteq> t \<and> (a, b) \<in> (edges BFS (uncover {t} h))\<^sup>*) \<or>
         (\<exists>c. (t, c) \<in> edges BFS h \<and> (c, b) \<in> (edges BFS (uncover {t} h))\<^sup>*)"
  using assms
proof (induction rule: converse_rtrancl_induct)
  case base
  then show ?case by simp
next
  case (step a a')
  from step.IH [OF step.prems]
  show ?case
  proof
    assume *: "a' \<noteq> t \<and> (a', b) \<in> (edges BFS (uncover {t} h))\<^sup>*"
    show ?thesis
    proof (cases "a = t")
      case True
      with step.hyps(1) * show ?thesis by blast
    next
      case False
      with step.hyps(1) have "(a, a') \<in> edges BFS (uncover {t} h)"
        by (simp add: edges_uncover)
      with * False show ?thesis
        by (meson converse_rtrancl_into_rtrancl)
    qed
  next
    assume "\<exists>c. (t, c) \<in> edges BFS h \<and> (c, b) \<in> (edges BFS (uncover {t} h))\<^sup>*"
    then show ?thesis ..
  qed
qed

lemma no_edge_from:
  "\<not> (openable h t \<and> spreads BFS h t) \<Longrightarrow> (t, b) \<in> (edges BFS h)\<^sup>* \<Longrightarrow> b = t"
  by (erule converse_rtranclE) (auto simp: edges_def)

lemma reach_closed:
  assumes "\<not> openable h t"
  shows "reach BFS h (t # rest) = reach BFS h rest"
proof -
  have "\<And>b. (t, b) \<in> (edges BFS h)\<^sup>* \<Longrightarrow> openable h b \<Longrightarrow> False"
    using assms no_edge_from by blast
  then show ?thesis
    by (auto simp: reach_def)
qed

lemma reach_open:
  assumes "openable h t"
  shows "reach BFS h (t # rest) =
         insert t (reach BFS (uncover {t} h)
            (rest @ (if spreads BFS h t then neighbours (h t) else [])))"
    (is "?L = insert t ?R")
proof (intro equalityI subsetI)
  fix b assume b: "b \<in> ?L"
  show "b \<in> insert t ?R"
  proof (cases "b = t")
    case False
    from b obtain a where a: "a \<in> set (t # rest)" "(a, b) \<in> (edges BFS h)\<^sup>*"
      and ob: "openable h b"
      by (auto simp: reach_def)
    from path_split [OF a(2) False]
    show ?thesis
    proof
      assume "a \<noteq> t \<and> (a, b) \<in> (edges BFS (uncover {t} h))\<^sup>*"
      with a(1) ob False show ?thesis
        by (auto simp: reach_def openable_uncover)
    next
      assume "\<exists>c. (t, c) \<in> edges BFS h \<and> (c, b) \<in> (edges BFS (uncover {t} h))\<^sup>*"
      then obtain c where c: "(t, c) \<in> edges BFS h" "(c, b) \<in> (edges BFS (uncover {t} h))\<^sup>*"
        by blast
      from c(1) have "spreads BFS h t" "c \<in> set (neighbours (h t))"
        by (auto simp: edges_def)
      with c(2) ob False show ?thesis
        by (auto simp: reach_def openable_uncover)
    qed
  qed simp
next
  fix b assume b: "b \<in> insert t ?R"
  show "b \<in> ?L"
  proof (cases "b = t")
    case True
    with assms show ?thesis by (auto simp: reach_def)
  next
    case False
    with b have "b \<in> ?R" by simp
    then obtain a where a: "a \<in> set rest \<or> (spreads BFS h t \<and> a \<in> set (neighbours (h t)))"
        "(a, b) \<in> (edges BFS (uncover {t} h))\<^sup>*" and ob: "openable h b"
      by (auto simp: reach_def openable_uncover split: if_splits)
    from a(2) have ab: "(a, b) \<in> (edges BFS h)\<^sup>*"
      using edges_uncover_mono by blast
    from a(1) show ?thesis
    proof
      assume "a \<in> set rest"
      with ab ob show ?thesis by (auto simp: reach_def)
    next
      assume "spreads BFS h t \<and> a \<in> set (neighbours (h t))"
      with assms have "(t, a) \<in> edges BFS h" by (simp add: edges_def)
      with ab have "(t, b) \<in> (edges BFS h)\<^sup>*" by (meson converse_rtrancl_into_rtrancl)
      with ob show ?thesis by (auto simp: reach_def)
    qed
  qed
qed

text \<open>
  When the loop returns, it has opened the tiles the search reaches, added them to
  \<^verbatim>\<open>changed\<close>, and left \<^verbatim>\<open>searched\<close> as it was.
\<close>

lemma open_loop_result:
  assumes "open_loop h BFS q sd ch = Some res"
  shows "res = (uncover (reach BFS h q) h, sd, ch \<union> reach BFS h q)"
proof (rule open_loop.raw_induct
    [where P = "\<lambda>h BFS q sd ch res.
                  res = (uncover (reach BFS h q) h, sd, ch \<union> reach BFS h q)",
     OF _ assms], goal_cases)
  case (1 loop h BFS q sd ch res)
  show ?case
  proof (cases q)
    case Nil
    with 1(2) show ?thesis
      by (simp add: reach_def uncover_empty)
  next
    case (Cons t rest)
    show ?thesis
    proof (cases "openable h t")
      case False
      with 1(2) Cons have "loop h BFS rest sd ch = Some res"
        by (simp add: basic_open_closed)
      from 1(1) [OF this] show ?thesis
        by (simp add: Cons reach_closed [OF False])
    next
      case True
      let ?ts = "if spreads BFS h t then neighbours (h t) else []"
      from 1(2) Cons True
      have "loop (uncover {t} h) BFS (rest @ ?ts) sd (insert t ch) = Some res"
        by (simp add: basic_open_openable)
      from 1(1) [OF this] show ?thesis
        by (simp add: Cons reach_open [OF True] uncover_uncover)
    qed
  qed
qed

subsection \<open>Termination of the search\<close>

lemma closed_board_uncover: "closed_board (uncover S h) B = closed_board h B"
  by (simp add: closed_board_def neighbours_uncover)

lemma work_uncover:
  assumes "finite B" "t \<in> B" "openable h t"
  shows "work h B q = work (uncover {t} h) B q + Suc (length (neighbours (h t)))"
proof -
  let ?A = "{r \<in> B. openable h r}"
  have fin: "finite ?A" using assms(1) by simp
  have mem: "t \<in> ?A" using assms(2,3) by simp
  have eq: "{r \<in> B. openable (uncover {t} h) r} = ?A - {t}"
    by (auto simp: openable_uncover)
  show ?thesis
    unfolding work_def eq
    by (simp add: sum.remove [OF fin mem] neighbours_uncover)
qed

lemma open_loop_terminates:
  assumes "finite B" "closed_board h B" "set q \<subseteq> B"
  shows "\<exists>res. open_loop h BFS q sd ch = Some res"
  using assms
proof (induction "work h B q" arbitrary: h q ch rule: less_induct)
  case less
  show ?case
  proof (cases q)
    case Nil
    then show ?thesis by (simp add: open_loop_Nil)
  next
    case (Cons t rest)
    with less.prems have t: "t \<in> B" and rest: "set rest \<subseteq> B" by auto
    show ?thesis
    proof (cases "openable h t")
      case False
      have "work h B rest < work h B q" by (simp add: Cons work_def)
      from less.hyps [OF this less.prems(1,2) rest]
      obtain res where "open_loop h BFS rest sd ch = Some res" by blast
      then show ?thesis
        unfolding Cons open_loop_Cons_closed [OF False] by blast
    next
      case True
      let ?h1 = "uncover {t} h"
      let ?ts = "if spreads BFS h t then neighbours (h t) else []"
      have "work ?h1 B (rest @ ?ts) < work h B q"
        unfolding work_uncover [OF less.prems(1) t True, of q]
        by (simp add: Cons work_def)
      moreover have "closed_board ?h1 B"
        using less.prems(2) by (simp add: closed_board_uncover)
      moreover have "set (rest @ ?ts) \<subseteq> B"
        using rest t less.prems(2) by (auto simp: closed_board_def)
      ultimately obtain res
        where "open_loop ?h1 BFS (rest @ ?ts) sd (insert t ch) = Some res"
        using less.hyps less.prems(1) by blast
      then show ?thesis
        unfolding Cons open_loop_Cons_open [OF True] by blast
    qed
  qed
qed

lemma open_tile_result:
  assumes "open_tile h BFS test_op r = Some (h', s)"
  shows "h' = uncover (reach BFS h [r]) h \<and> s = (if test_op then {} else reach BFS h [r])"
proof -
  from assms obtain res where res: "open_loop h BFS [r] {} {} = Some res"
    by (auto simp: open_tile_def split: option.splits)
  from open_loop_result [OF res] res assms show ?thesis
    by (auto simp: open_tile_def)
qed

lemma open_tile_returns:
  assumes "finite B" "closed_board h B" "r \<in> B"
  shows "open_tile h BFS test_op r =
         Some (uncover (reach BFS h [r]) h, if test_op then {} else reach BFS h [r])"
proof -
  from open_loop_terminates [OF assms(1,2), of "[r]" BFS "{}" "{}"] assms(3)
  obtain res where res: "open_loop h BFS [r] {} {} = Some res" by auto
  from open_loop_result [OF res] res show ?thesis
    by (simp add: open_tile_def)
qed

subsection \<open>The example boards\<close>

lemma line2_tiles:
  "line2 0 = (init_tile 0 0)\<lparr>val := 1, neighbours := [1]\<rparr>"
  "line2 (Suc 0) = (init_tile 0 1)\<lparr>val := MINE, neighbours := [0]\<rparr>"
  by (simp_all add: line2_def set_mine_def set_neighbours_def fresh_def is_mine_def MINE_def
        init_tile_def Let_def)

lemma line3_tiles:
  "line3 0 = (init_tile 0 0)\<lparr>neighbours := [1]\<rparr>"
  "line3 (Suc 0) = (init_tile 0 1)\<lparr>val := 1, neighbours := [0, 2]\<rparr>"
  "line3 2 = (init_tile 0 2)\<lparr>val := MINE, neighbours := [1]\<rparr>"
  by (simp_all add: line3_def set_mine_def set_neighbours_def fresh_def is_mine_def MINE_def
        init_tile_def Let_def)

lemma line3_closed: "closed_board line3 {0, 1, 2}"
  by (simp add: closed_board_def line3_tiles)

text \<open>
  Opening the first tile of the row of three opens it and the second tile, whose value is
  1, and stops there.
\<close>

lemma line3_open:
  "open_tile line3 False False 0 = Some (uncover {0, 1} line3, {0, 1})"
proof -
  have 0: "openable line3 0" "spreads False line3 0" "neighbours (line3 0) = [1]"
    by (simp_all add: openable_def spreads_def line3_tiles init_tile_def)
  have 1: "openable (uncover {0} line3) (Suc 0)" "\<not> spreads False (uncover {0} line3) (Suc 0)"
    by (simp_all add: uncover_def openable_def spreads_def line3_tiles init_tile_def)
  have eq: "{Suc 0, 0} = {0, Suc 0}" by auto
  show ?thesis
    by (simp add: open_tile_def open_loop_Cons_open 0 1 open_loop_Nil uncover_uncover eq)
qed

subsection \<open>Termination of \<^verbatim>\<open>open\<close>\<close>

text \<open>
  Claim C7. On a finite board (a finite set of tiles that contains the neighbours of its
  tiles) \<^verbatim>\<open>open\<close> terminates on every tile of the board, in either mode: the loop reaches
  the empty queue and returns. The measure behind the proof is \<open>work\<close>: a tile that cannot
  be opened leaves the heap as it is and adds nothing to the queue, and a tile that is
  opened cannot be opened again.
\<close>

theorem open_terminates:
  assumes "finite B" and "closed_board h B" and "r \<in> B"
  shows "\<exists>h' s. open_tile h BFS test_op r = Some (h', s)"
  using open_tile_returns [OF assms] by blast

theorem open_terminates_witness:
  "finite {0, 1, 2 :: nat} \<and> closed_board line3 {0, 1, 2} \<and> (0 :: nat) \<in> {0, 1, 2} \<and>
   (\<exists>h' s. open_tile line3 False False 0 = Some (h', s))"
  using open_terminates [of "{0, 1, 2}" line3 0 False False] line3_closed by simp

subsection \<open>What the operations leave unchanged\<close>

lemma fold_keeps:
  assumes "\<And>x g. Q (f x g) = Q g"
  shows "Q (fold f xs g) = Q g"
  by (induction xs arbitrary: g) (simp_all add: assms)

text \<open>
  A function \<open>F\<close> of a tile that does not depend on some fields has the same value after
  an operation that writes only those fields.
\<close>

lemma uncover_keeps:
  assumes "\<And>u b. F (u\<lparr>covered := b\<rparr>) = F u"
  shows "F (uncover S h t) = F (h t)"
  by (simp add: uncover_def assms)

lemma add_neighbour_flags_keeps:
  assumes "\<And>u n. F (u\<lparr>neighbour_flags := n\<rparr>) = F u"
  shows "F (add_neighbour_flags d x g t) = F (g t)"
  by (simp add: add_neighbour_flags_def assms)

lemma flag_keeps:
  assumes fl: "\<And>u b. F (u\<lparr>flagged := b\<rparr>) = F u"
    and nf: "\<And>u n. F (u\<lparr>neighbour_flags := n\<rparr>) = F u"
  shows "F (fst (flag h easy_flag r) t) = F (h t)"
proof -
  have counters: "F (fold (add_neighbour_flags d) ns g u) = F (g u)" for d ns g u
    by (rule fold_keeps [where Q = "\<lambda>g. F (g u)"]) (simp add: add_neighbour_flags_def nf)
  have easy:
    "F (fold (\<lambda>x g. fold (add_neighbour_flags 1)
                       (get_neighbours (g(x := (g x)\<lparr>flagged := True\<rparr>)) x)
                       (g(x := (g x)\<lparr>flagged := True\<rparr>))) ns h u) = F (h u)"
    for ns u
    by (rule fold_keeps [where Q = "\<lambda>g. F (g u)"]) (simp add: counters fl)
  show ?thesis
    unfolding flag_def Let_def
    by (simp add: counters easy fl)
qed

lemma left_hold_keeps:
  assumes "\<And>u b. F (u\<lparr>down := b\<rparr>) = F u"
  shows "F (left_hold h r t) = F (h t)"
  by (simp add: left_hold_def assms)

lemma double_hold_keeps:
  assumes "\<And>u b. F (u\<lparr>down := b\<rparr>) = F u"
  shows "F (double_hold h r t) = F (h t)"
proof -
  have "F (fold (\<lambda>t g. left_hold g t) ns g t) = F (g t)" for ns g
    by (rule fold_keeps [where Q = "\<lambda>g. F (g t)"]) (simp add: left_hold_def assms)
  then show ?thesis
    by (simp add: double_hold_def Let_def left_hold_keeps [where F = F, OF assms])
qed

lemma unhold_keeps:
  assumes "\<And>u b. F (u\<lparr>down := b\<rparr>) = F u"
  shows "F (unhold h r t) = F (h t)"
  by (simp add: unhold_def assms)

lemma open_each_uncovers:
  "open_each h BFS ts = Some (h', ss) \<Longrightarrow> \<exists>S. h' = uncover S h"
proof (induction ts arbitrary: h h' ss)
  case Nil
  then have "h' = uncover {} h" by (simp add: uncover_empty)
  then show ?case ..
next
  case (Cons t ts)
  from Cons.prems obtain h1 s ss' where
    1: "open_tile h BFS False t = Some (h1, s)" and 2: "open_each h1 BFS ts = Some (h', ss')"
    by (auto split: option.splits)
  from open_tile_result [OF 1] obtain S1 where "h1 = uncover S1 h" by blast
  moreover from Cons.IH [OF 2] obtain S2 where "h' = uncover S2 h1" by blast
  ultimately have "h' = uncover (S2 \<union> S1) h" by (simp add: uncover_uncover)
  then show ?case ..
qed

lemma double_uncovers:
  assumes "double h BFS r = Some (h', res)"
  shows "\<exists>S. h' = uncover S h"
proof (cases "\<not> covered (h r) \<and> val (h r) = neighbour_flags (h r)")
  case True
  with assms obtain ss where "open_each h BFS (neighbours (h r)) = Some (h', ss)"
    by (auto simp: double_def split: option.splits)
  then show ?thesis by (rule open_each_uncovers)
next
  case False
  with assms have "h' = uncover {} h" by (auto simp: double_def uncover_empty)
  then show ?thesis ..
qed

text \<open>
  Every action leaves a tile as it was, up to the fields \<open>covered\<close>, \<open>flagged\<close>, \<open>down\<close> and
  \<open>neighbour_flags\<close>.
\<close>

lemma exec_keeps:
  assumes F: "\<And>u b. F (u\<lparr>covered := b\<rparr>) = F u" "\<And>u b. F (u\<lparr>flagged := b\<rparr>) = F u"
      "\<And>u b. F (u\<lparr>down := b\<rparr>) = F u" "\<And>u n. F (u\<lparr>neighbour_flags := n\<rparr>) = F u"
    and ex: "exec h a = Some (h', res)"
  shows "F (h' t) = F (h t)"
proof (cases a)
  case (Open r BFS test_op)
  with ex obtain s where "open_tile h BFS test_op r = Some (h', s)"
    by (auto split: option.splits)
  from open_tile_result [OF this] show ?thesis
    by (simp add: uncover_keeps [where F = F, OF F(1)])
next
  case (Flag r easy_flag)
  with ex have "h' = fst (flag h easy_flag r)" by (auto split: prod.splits)
  then show ?thesis by (simp add: flag_keeps [where F = F, OF F(2) F(4)])
next
  case (Double r BFS)
  with ex have "double h BFS r = Some (h', res)" by simp
  from double_uncovers [OF this] obtain S where "h' = uncover S h" ..
  then show ?thesis by (simp add: uncover_keeps [where F = F, OF F(1)])
next
  case (LeftHold r)
  with ex show ?thesis by (auto simp: left_hold_keeps [where F = F, OF F(3)])
next
  case (DoubleHold r)
  with ex show ?thesis by (auto simp: double_hold_keeps [where F = F, OF F(3)])
next
  case (Unhold r)
  with ex show ?thesis by (auto simp: unhold_keeps [where F = F, OF F(3)])
qed

lemma exec_covered:
  assumes "exec h a = Some (h', res)" and "\<not> covered (h t)"
  shows "\<not> covered (h' t)"
proof (cases a)
  case (Open r BFS test_op)
  with assms(1) obtain s where "open_tile h BFS test_op r = Some (h', s)"
    by (auto split: option.splits)
  from open_tile_result [OF this] assms(2) show ?thesis
    by (simp add: uncover_def)
next
  case (Flag r easy_flag)
  with assms(1) have "h' = fst (flag h easy_flag r)" by (auto split: prod.splits)
  with assms(2) show ?thesis by (simp add: flag_keeps [where F = covered])
next
  case (Double r BFS)
  with assms(1) have "double h BFS r = Some (h', res)" by simp
  from double_uncovers [OF this] obtain S where "h' = uncover S h" ..
  with assms(2) show ?thesis by (simp add: uncover_def)
next
  case (LeftHold r)
  with assms show ?thesis by (auto simp: left_hold_keeps [where F = covered])
next
  case (DoubleHold r)
  with assms show ?thesis by (auto simp: double_hold_keeps [where F = covered])
next
  case (Unhold r)
  with assms show ?thesis by (auto simp: unhold_keeps [where F = covered])
qed

lemma run_step:
  assumes "run h (a # as) = Some (h', e)"
  obtains h1 res where "exec h a = Some (h1, res)"
    and "(\<exists>err. res = Inl err \<and> h' = h1 \<and> e = Some err) \<or>
         (\<exists>s. res = Inr s \<and> run h1 as = Some (h', e))"
  using assms by (auto split: option.splits sum.splits)

lemma run_keeps:
  assumes F: "\<And>u b. F (u\<lparr>covered := b\<rparr>) = F u" "\<And>u b. F (u\<lparr>flagged := b\<rparr>) = F u"
      "\<And>u b. F (u\<lparr>down := b\<rparr>) = F u" "\<And>u n. F (u\<lparr>neighbour_flags := n\<rparr>) = F u"
  shows "run h as = Some (h', e) \<Longrightarrow> F (h' t) = F (h t)"
proof (induction as arbitrary: h)
  case Nil
  then show ?case by simp
next
  case (Cons a as)
  from Cons.prems obtain h1 res where ex: "exec h a = Some (h1, res)"
    and rest: "(\<exists>err. res = Inl err \<and> h' = h1 \<and> e = Some err) \<or>
               (\<exists>s. res = Inr s \<and> run h1 as = Some (h', e))"
    by (rule run_step)
  from exec_keeps [OF F ex] have "F (h1 t) = F (h t)" .
  with rest Cons.IH show ?case by auto
qed

lemma run_covered:
  "run h as = Some (h', e) \<Longrightarrow> \<not> covered (h t) \<Longrightarrow> \<not> covered (h' t)"
proof (induction as arbitrary: h)
  case Nil
  then show ?case by simp
next
  case (Cons a as)
  from Cons.prems(1) obtain h1 res where ex: "exec h a = Some (h1, res)"
    and rest: "(\<exists>err. res = Inl err \<and> h' = h1 \<and> e = Some err) \<or>
               (\<exists>s. res = Inr s \<and> run h1 as = Some (h', e))"
    by (rule run_step)
  from exec_covered [OF ex Cons.prems(2)] have "\<not> covered (h1 t)" .
  with rest Cons.IH show ?case by auto
qed

subsection \<open>What \<^verbatim>\<open>open\<close> changes\<close>

text \<open>
  Claim C10. A step \<^verbatim>\<open>basic_open\<close> and a whole call of \<^verbatim>\<open>open\<close> leave every tile of the
  heap either as it was or as it was with \<open>covered\<close> set to false: the fields \<open>flagged\<close>,
  \<open>down\<close>, \<open>val\<close>, \<open>neighbour_flags\<close>, \<open>neighbours\<close>, \<open>status\<close>, \<open>x_coord\<close> and \<open>y_coord\<close>
  of every tile are the same before and after.
\<close>

theorem open_writes_covered_only:
  "(basic_open h BFS r = (h1, eff, ts) \<longrightarrow>
      (\<forall>t. h1 t = h t \<or> h1 t = (h t)\<lparr>covered := False\<rparr>)) \<and>
   (open_tile h BFS test_op r = Some (h', s) \<longrightarrow>
      (\<forall>t. h' t = h t \<or> h' t = (h t)\<lparr>covered := False\<rparr>))"
proof (intro conjI impI allI)
  fix t
  assume "basic_open h BFS r = (h1, eff, ts)"
  then show "h1 t = h t \<or> h1 t = (h t)\<lparr>covered := False\<rparr>"
    by (auto simp: basic_open_def Let_def split: if_splits)
next
  fix t
  assume "open_tile h BFS test_op r = Some (h', s)"
  from open_tile_result [OF this] show "h' t = h t \<or> h' t = (h t)\<lparr>covered := False\<rparr>"
    by (simp add: uncover_def)
qed

theorem open_writes_covered_only_witness:
  "basic_open line3 False 0 = (uncover {0} line3, True, [1]) \<and>
   open_tile line3 False False 0 = Some (uncover {0, 1} line3, {0, 1}) \<and>
   (\<forall>t. uncover {0} line3 t = line3 t \<or> uncover {0} line3 t = (line3 t)\<lparr>covered := False\<rparr>) \<and>
   (\<forall>t. uncover {0, 1} line3 t = line3 t \<or>
        uncover {0, 1} line3 t = (line3 t)\<lparr>covered := False\<rparr>)"
proof -
  have 1: "basic_open line3 False 0 = (uncover {0} line3, True, [1])"
    by (simp add: basic_open_openable openable_def spreads_def line3_tiles init_tile_def)
  from 1 line3_open
    open_writes_covered_only [of line3 False 0 "uncover {0} line3" True "[1]" False
      "uncover {0, 1} line3" "{0, 1}"]
  show ?thesis by simp
qed

subsection \<open>Opened tiles stay open\<close>

text \<open>
  Claim C8. A tile that is open stays open through every sequence of core operations
  (\<^verbatim>\<open>open\<close>, \<^verbatim>\<open>flag\<close>, \<^verbatim>\<open>double\<close>, \<^verbatim>\<open>left_hold\<close>, \<^verbatim>\<open>double_hold\<close>, \<^verbatim>\<open>unhold\<close>), also when
  the sequence ends in an exception; \<^verbatim>\<open>recover\<close> covers the tile again.
\<close>

theorem covered_stays_false:
  "(run h as = Some (h', e) \<longrightarrow> \<not> covered (h t) \<longrightarrow> \<not> covered (h' t)) \<and>
   covered (recover h t t)"
  using run_covered [of h as h' e t] by (simp add: recover_def)

theorem covered_stays_false_witness:
  "\<not> covered (uncover {0, 1} line3 0) \<and>
   (\<exists>h'. run (uncover {0, 1} line3)
            [Flag 2 False, Double 1 False, LeftHold 2, DoubleHold 1, Unhold 1,
             Open 0 False False] = Some (h', None) \<and>
         \<not> covered (h' 0)) \<and>
   covered (recover (uncover {0, 1} line3) 0 0)"
proof -
  let ?h = "uncover {0, 1} line3"
  let ?as = "[Flag 2 False, Double 1 False, LeftHold 2, DoubleHold 1, Unhold 1,
              Open 0 False False]"
  have "map_option snd (run ?h ?as) = Some None"
    by code_simp
  then obtain h' where r: "run ?h ?as = Some (h', None)"
    by auto
  have c: "\<not> covered (?h 0)"
    by (simp add: uncover_def)
  from r c covered_stays_false [of ?h ?as h' None 0] show ?thesis
    by blast
qed

subsection \<open>The status of a tile\<close>

text \<open>
  Opening a new tile without neighbours opens it, and the call of \<^verbatim>\<open>double\<close> that follows
  finds it open with its value equal to its counter of flags.
\<close>

lemma fresh_open: "open_tile fresh BFS test_op 0 = Some (uncover {0} fresh, if test_op then {} else {0})"
proof -
  have "openable fresh 0" "neighbours (fresh 0) = []"
    by (simp_all add: openable_def fresh_def init_tile_def)
  then show ?thesis
    by (simp add: open_tile_def open_loop_Cons_open open_loop_Nil)
qed

text \<open>
  The stored status is stale after \<^verbatim>\<open>open\<close>: a new tile of value 0 is opened, its state
  gives the display code 0, and \<^verbatim>\<open>get_status\<close> still returns COVERED.
\<close>

lemma fresh_run_open: "run fresh [Open 0 False False] = Some (uncover {0} fresh, None)"
  by (simp add: fresh_open)

theorem get_status_stale:
  "run fresh [Open 0 False False] = Some (uncover {0} fresh, None) \<and>
   get_status (uncover {0} fresh) 0 = 9 \<and>
   spec_status (uncover {0} fresh 0) = 0"
proof -
  have "get_status (uncover {0} fresh) 0 = 9" "spec_status (uncover {0} fresh 0) = 0"
    by (simp_all add: get_status_def spec_status_def uncover_def fresh_def init_tile_def
          COVERED_def)
  with fresh_run_open show ?thesis by simp
qed

text \<open>
  Claim C3, amended. \<^verbatim>\<open>get_status\<close> returns the stored field \<open>status\<close>. No core operation
  writes that field, so after any sequence of them \<^verbatim>\<open>get_status\<close> returns what it returned
  before; the field holds the display code derived from \<open>flagged\<close>, \<open>down\<close>, \<open>covered\<close> and
  \<open>val\<close> right after \<^verbatim>\<open>update\<close>, and COVERED right after \<^verbatim>\<open>recover\<close>.
\<close>

theorem get_status_stored:
  "(run h as = Some (h', e) \<longrightarrow> get_status h' t = get_status h t) \<and>
   get_status (update h t) t = spec_status (update h t t) \<and>
   get_status (recover h t) t = COVERED"
proof (intro conjI impI)
  assume "run h as = Some (h', e)"
  then have "status (h' t) = status (h t)"
    by (rule run_keeps [where F = status, rotated -1]) simp_all
  then show "get_status h' t = get_status h t"
    by (simp add: get_status_def)
next
  show "get_status (update h t) t = spec_status (update h t t)"
    by (simp add: get_status_def update_def spec_status_def)
next
  show "get_status (recover h t) t = COVERED"
    by (simp add: get_status_def recover_def)
qed

theorem get_status_stored_witness:
  "run fresh [Open 0 False False] = Some (uncover {0} fresh, None) \<and>
   get_status (uncover {0} fresh) 0 = get_status fresh 0 \<and>
   get_status (update (uncover {0} fresh) 0) 0 = 0"
proof -
  have "spec_status (update (uncover {0} fresh) 0 0) = 0"
    by (simp add: spec_status_def update_def uncover_def fresh_def init_tile_def)
  with fresh_run_open
    get_status_stored [of fresh "[Open 0 False False]" "uncover {0} fresh" None 0]
    get_status_stored [of "uncover {0} fresh" "[]" "uncover {0} fresh" None 0]
  show ?thesis by simp
qed

subsection \<open>The introspection mode of \<^verbatim>\<open>open\<close>\<close>

text \<open>
  Claim C5. With \<^verbatim>\<open>test_op\<close> set, \<^verbatim>\<open>open\<close> returns the set \<^verbatim>\<open>searched\<close>, which the loop
  never fills: on the row of three tiles the call examines and opens the first two tiles
  and returns the empty set.
\<close>

theorem open_test_op_returns_nothing:
  "open_tile line3 False True 0 = Some (uncover {0, 1} line3, {})"
proof -
  have 0: "openable line3 0" "spreads False line3 0" "neighbours (line3 0) = [1]"
    by (simp_all add: openable_def spreads_def line3_tiles init_tile_def)
  have 1: "openable (uncover {0} line3) (Suc 0)" "\<not> spreads False (uncover {0} line3) (Suc 0)"
    by (simp_all add: uncover_def openable_def spreads_def line3_tiles init_tile_def)
  have eq: "{Suc 0, 0} = {0, Suc 0}" by auto
  show ?thesis
    by (simp add: open_tile_def open_loop_Cons_open 0 1 open_loop_Nil uncover_uncover eq)
qed

subsection \<open>\<^verbatim>\<open>double\<close> on a tile without neighbours\<close>

text \<open>
  What \<^verbatim>\<open>double\<close> does: nothing on a tile that is covered or whose value differs from its
  counter of flags; otherwise it opens the neighbours and returns the union of their
  results, or raises when there is no neighbour.
\<close>

lemma double_invalid:
  "covered (h r) \<or> val (h r) \<noteq> neighbour_flags (h r) \<Longrightarrow> double h BFS r = Some (h, Inr {})"
  by (auto simp: double_def)

lemma double_valid:
  "\<not> covered (h r) \<Longrightarrow> val (h r) = neighbour_flags (h r) \<Longrightarrow>
   double h BFS r = map_option (\<lambda>(h1, ss). (h1, set_union ss)) (open_each h BFS (neighbours (h r)))"
  by (auto simp: double_def split: option.splits)

text \<open>
  Claim C6. The operations are not all total: on a new tile without neighbours that has
  been opened, \<^verbatim>\<open>double\<close> calls \<^verbatim>\<open>set.union\<close> without arguments, which raises.
\<close>

theorem double_raises_without_neighbours:
  "run fresh [Open 0 False False, Double 0 False] = Some (uncover {0} fresh, Some TypeError)"
proof -
  have "double (uncover {0} fresh) False 0 = Some (uncover {0} fresh, Inl TypeError)"
    by (simp add: double_def set_union_def uncover_def fresh_def init_tile_def)
  then show ?thesis by (simp add: fresh_open)
qed

text \<open>
  Claim C4. On an open tile whose value equals its counter of flags and that has no
  neighbour, \<^verbatim>\<open>double\<close> returns no set: it raises.
\<close>

theorem double_no_union_without_neighbours:
  "\<not> covered (uncover {0} fresh 0) \<and>
   val (uncover {0} fresh 0) = neighbour_flags (uncover {0} fresh 0) \<and>
   neighbours (uncover {0} fresh 0) = [] \<and>
   double (uncover {0} fresh) True 0 = Some (uncover {0} fresh, Inl TypeError)"
  by (simp add: double_def set_union_def uncover_def fresh_def init_tile_def)

subsection \<open>The counter of flagged neighbours\<close>

text \<open>
  Claim C1. On the row of two tiles the counters are right at the start. After the first
  tile is opened and the mine is flagged, \<^verbatim>\<open>flag\<close> with \<^verbatim>\<open>easy_flag\<close> on the first tile
  finds its value 1 equal to its one covered neighbour, flags that neighbour, which is
  flagged already, and increments the counter of the first tile a second time: the counter
  is 2 and the tile has one flagged neighbour.
\<close>

theorem easy_flag_counts_twice:
  "neighbour_flags (line2 0) = flagged_neighbours line2 0 \<and>
   neighbour_flags (line2 1) = flagged_neighbours line2 1 \<and>
   map_option (\<lambda>(h, e). (neighbour_flags (h 0), flagged_neighbours h 0, e))
     (run line2 [Open 0 False False, Flag 1 False, Flag 0 True]) = Some (2, 1, None)"
  by code_simp

subsection \<open>Equality of tiles\<close>

text \<open>
  Two different tiles with the same coordinates are not equal and do not have the same
  hash.
\<close>

theorem tile_eq_twins:
  "get_coordinate twins 0 = get_coordinate twins 1 \<and> \<not> tile_eq 0 1 \<and> tile_hash 0 \<noteq> tile_hash 1"
  by (simp add: get_coordinate_def twins_def tile_eq_def tile_hash_def)

text \<open>
  Claim C9, amended. Two tiles are equal, and have the same hash, exactly when they are the
  same object. On a board whose tiles have pairwise different coordinates, that is exactly
  when their coordinates are equal.
\<close>

theorem tile_eq_identity:
  "(tile_eq a b \<longleftrightarrow> a = b) \<and> (tile_hash a = tile_hash b \<longleftrightarrow> a = b) \<and>
   (inj_on (get_coordinate h) B \<longrightarrow> a \<in> B \<longrightarrow> b \<in> B \<longrightarrow>
      (tile_eq a b \<longleftrightarrow> get_coordinate h a = get_coordinate h b) \<and>
      (tile_hash a = tile_hash b \<longleftrightarrow> get_coordinate h a = get_coordinate h b))"
  by (auto simp: tile_eq_def tile_hash_def dest: inj_onD)

theorem tile_eq_identity_witness:
  "inj_on (get_coordinate line3) {0, 1, 2} \<and>
   (tile_eq 0 1 \<longleftrightarrow> get_coordinate line3 0 = get_coordinate line3 1) \<and>
   (tile_eq 2 2 \<longleftrightarrow> get_coordinate line3 2 = get_coordinate line3 2)"
proof -
  have inj: "inj_on (get_coordinate line3) {0, 1, 2}"
    by (simp add: get_coordinate_def line3_tiles init_tile_def)
  from inj tile_eq_identity [of 0 1 line3 "{0, 1, 2}"] tile_eq_identity [of 2 2 line3 "{0, 1, 2}"]
  show ?thesis by simp
qed

subsection \<open>Flood fill\<close>

text \<open>
  On a board of covered, unflagged tiles, a search in normal mode moves along the tiles of
  value 0, so what it opens from a tile of value 0 is the zero-region of that tile and the
  neighbours of the region.
\<close>

lemma edges_stay_on_board:
  assumes "closed_board h B"
  shows "(a, b) \<in> (edges BFS h)\<^sup>* \<Longrightarrow> a \<in> B \<Longrightarrow> b \<in> B"
proof (induction rule: rtrancl_induct)
  case base
  then show ?case .
next
  case (step b c)
  then have "b \<in> B" by simp
  with step.hyps(2) assms show ?case
    by (auto simp: edges_def closed_board_def)
qed




















end
